theory Spec2Isabelle
  imports Main
begin

section \<open>Strings, slices and panics\<close>

text \<open>
  A Go \<^verbatim>\<open>string\<close> is a sequence of bytes, here a \<^typ>\<open>string\<close> (a list of 8-bit
  characters). Go's \<^verbatim>\<open>int\<close> is modelled by \<^typ>\<open>int\<close>: every index below is between
  \<open>-1\<close> and the length of a string, far from the 64-bit range.

  A slice expression with an index out of range, a nil dereference and a failed type
  assertion panic at run time. Each of them is a value of \<open>panic\<close>, and a function that
  may panic returns \<open>panic + 'a\<close>.
\<close>

datatype panic = SliceBounds | NilDereference | NilKey | TypeAssertion

text \<open>\<^verbatim>\<open>s[lo:]\<close> panics unless \<open>0 \<le> lo \<le> len(s)\<close>.\<close>

definition slice_from :: "string \<Rightarrow> int \<Rightarrow> panic + string" where
  "slice_from s lo =
     (if 0 \<le> lo \<and> lo \<le> int (length s) then Inr (drop (nat lo) s) else Inl SliceBounds)"

text \<open>\<^verbatim>\<open>s[:hi]\<close> panics unless \<open>0 \<le> hi \<le> len(s)\<close>.\<close>

definition slice_to :: "string \<Rightarrow> int \<Rightarrow> panic + string" where
  "slice_to s hi =
     (if 0 \<le> hi \<and> hi \<le> int (length s) then Inr (take (nat hi) s) else Inl SliceBounds)"

text \<open>
  \<^verbatim>\<open>strings.IndexByte(s, c)\<close> of the standard library: the index of the first \<open>c\<close> in
  \<open>s\<close>, or \<open>-1\<close> when there is none. \<open>IndexByte_from\<close> is the scan, \<open>i\<close> being the index
  of the head of what is left.
\<close>

fun IndexByte_from :: "int \<Rightarrow> string \<Rightarrow> char \<Rightarrow> int" where
  "IndexByte_from i [] c = - 1"
| "IndexByte_from i (x # xs) c = (if x = c then i else IndexByte_from (i + 1) xs c)"

definition IndexByte :: "string \<Rightarrow> char \<Rightarrow> int" where
  "IndexByte s c = IndexByte_from 0 s c"

section \<open>The path shifter\<close>

text \<open>
  \<^verbatim>\<open>
  func shift(path string) (seg string, rest string) {
      if path == "" || path == "/" {
          return "", path
      }
      path = path[1:]
      idx := strings.IndexByte(path, '/')
      if idx != -1 {
          seg = path[:idx]
          rest = path[idx:]
          return seg, rest
      } else {
          return path, ""
      }
  }
  \<close>
\<close>

definition shift :: "string \<Rightarrow> panic + (string \<times> string)" where
  "shift path =
     (if path = '''' \<or> path = ''/'' then Inr ('''', path)
      else
        (case slice_from path 1 of
           Inl e \<Rightarrow> Inl e
         | Inr path' \<Rightarrow>
             (let idx = IndexByte path' CHR ''/'' in
              if idx \<noteq> - 1 then
                (case slice_to path' idx of
                   Inl e \<Rightarrow> Inl e
                 | Inr seg \<Rightarrow>
                     (case slice_from path' idx of
                        Inl e \<Rightarrow> Inl e
                      | Inr rest \<Rightarrow> Inr (seg, rest)))
              else Inr (path', ''''))))"

text \<open>The precondition the documentation of \<^verbatim>\<open>Shift\<close> gives: the path is empty or has
  a \<^verbatim>\<open>"/"\<close> prefix.\<close>

definition valid_path :: "string \<Rightarrow> bool" where
  "valid_path p = (p = '''' \<or> take 1 p = ''/'')"

section \<open>Context values\<close>

text \<open>
  \<^verbatim>\<open>type key int\<close>, with \<^verbatim>\<open>pathKey key = 0\<close> and \<^verbatim>\<open>requestIDKey key = 1\<close>. The type is
  private to the package: no other package can build a value of it.
\<close>

datatype key = Key int

definition pathKey :: key where
  "pathKey = Key 0"

definition requestIDKey :: key where
  "requestIDKey = Key 1"

text \<open>
  A value of type \<^verbatim>\<open>interface{}\<close>, as the keys and values of a context are: \<open>nil\<close>, or a
  dynamic type with a value of it. Two interface values are equal when their dynamic
  types and their values are; a \<^verbatim>\<open>string\<close> in an interface, the empty one included,
  is not \<open>nil\<close>. \<open>other_value\<close> stands for the values of every other dynamic type (the
  keys of other packages among them).
\<close>

datatype iface = nil | key_value key | string_value string | other_value nat

text \<open>
  A \<^verbatim>\<open>context.Context\<close> of the standard library is an immutable chain: the background
  context, a \<^verbatim>\<open>valueCtx\<close> node that adds one key and value to its parent, or a node that
  adds cancellation or a deadline and holds no value for these keys. \<^verbatim>\<open>Value\<close> walks
  the chain from the newest node and returns the first value stored under the key, or
  \<open>nil\<close>.
\<close>

datatype "context" = Background | valueCtx "context" iface iface | cancelCtx "context"

fun Value :: "context \<Rightarrow> iface \<Rightarrow> iface" where
  "Value Background k = nil"
| "Value (valueCtx parent k' v) k = (if k' = k then v else Value parent k)"
| "Value (cancelCtx parent) k = Value parent k"

text \<open>\<^verbatim>\<open>context.WithValue(parent, key, val)\<close> wraps \<open>parent\<close>; it panics on a nil key.\<close>

definition WithValue :: "context \<Rightarrow> iface \<Rightarrow> iface \<Rightarrow> panic + context" where
  "WithValue parent k v = (if k = nil then Inl NilKey else Inr (valueCtx parent k v))"

text \<open>Some node of the chain stores a value under \<open>k\<close>: a "with" operation for \<open>k\<close> has
  touched the context.\<close>

fun has_value :: "context \<Rightarrow> iface \<Rightarrow> bool" where
  "has_value Background k = False"
| "has_value (valueCtx parent k' v) k = (k' = k \<or> has_value parent k)"
| "has_value (cancelCtx parent) k = has_value parent k"

text \<open>The type assertion \<^verbatim>\<open>val.(string)\<close> panics when \<open>val\<close> holds no string.\<close>

definition assert_string :: "iface \<Rightarrow> panic + string" where
  "assert_string val = (case val of string_value s \<Rightarrow> Inr s | _ \<Rightarrow> Inl TypeAssertion)"

section \<open>Requests and the store\<close>

text \<open>
  \<^verbatim>\<open>*http.Request\<close> and \<^verbatim>\<open>*url.URL\<close> are pointers to mutable structs, and a request
  holds a pointer to its URL. The store has the requests and the URLs allocated so far;
  a pointer is an index into one of the two lists, and dereferencing a pointer outside
  the store (\<^verbatim>\<open>nil\<close>) panics. Allocation appends, so a new pointer differs from every
  pointer in use. The records have the fields that the package and its tests read.

  The package rests on \<^verbatim>\<open>req.WithContext\<close> of net/http, which is not part of it, and the
  releases of Go differ there: the copy of the request either shares the URL struct of
  the original, or gets a copy of that struct of its own. The field \<open>clone_url\<close> of the
  store is not memory: it says which of the two the program runs with. The operations
  never change it, and every theorem below holds for both.
\<close>

record url =
  Scheme :: string
  Host :: string
  URL_Path :: string

record request =
  Method :: string
  URL :: nat
  RemoteAddr :: string
  ctx :: "context option"

record heap =
  requests :: "request list"
  urls :: "url list"
  clone_url :: bool

definition load_request :: "heap \<Rightarrow> nat \<Rightarrow> panic + request" where
  "load_request h req =
     (if req < length (requests h) then Inr (requests h ! req) else Inl NilDereference)"

definition load_url :: "heap \<Rightarrow> nat \<Rightarrow> panic + url" where
  "load_url h u = (if u < length (urls h) then Inr (urls h ! u) else Inl NilDereference)"

text \<open>\<^verbatim>\<open>req.Context()\<close> of net/http: the context of the request, the background context
  when the field is nil.\<close>

definition Context :: "request \<Rightarrow> context" where
  "Context r = (case ctx r of None \<Rightarrow> Background | Some c \<Rightarrow> c)"

text \<open>
  \<^verbatim>\<open>req.WithContext(ctx)\<close> of net/http: a copy of the request, newly allocated, with its
  context changed to \<open>c\<close>. Under \<open>clone_url\<close> a URL pointer that is not nil is replaced,
  in the copy, by a pointer to a newly allocated copy of the URL; otherwise the copy of
  the request holds the URL pointer of the original.
\<close>

definition WithContext :: "heap \<Rightarrow> nat \<Rightarrow> context \<Rightarrow> panic + (nat \<times> heap)" where
  "WithContext h req c =
     (case load_request h req of
        Inl e \<Rightarrow> Inl e
      | Inr r \<Rightarrow>
          (let r2 = r\<lparr>ctx := Some c\<rparr> in
           if clone_url h \<and> URL r < length (urls h)
           then Inr (length (requests h),
                     h\<lparr>requests := requests h @ [r2\<lparr>URL := length (urls h)\<rparr>],
                       urls := urls h @ [urls h ! URL r]\<rparr>)
           else Inr (length (requests h), h\<lparr>requests := requests h @ [r2]\<rparr>)))"

text \<open>\<^verbatim>\<open>req.URL.Path\<close>, the live path of a request.\<close>

definition live_path :: "heap \<Rightarrow> nat \<Rightarrow> panic + string" where
  "live_path h req =
     (case load_request h req of
        Inl e \<Rightarrow> Inl e
      | Inr r \<Rightarrow> (case load_url h (URL r) of Inl e \<Rightarrow> Inl e | Inr u \<Rightarrow> Inr (URL_Path u)))"

section \<open>The operations of the package\<close>

text \<open>
  \<^verbatim>\<open>
  func Shift(req *http.Request) string {
      seg, rest := shift(req.URL.Path)
      req.URL.Path = rest
      return seg
  }
  \<close>
\<close>

definition Shift :: "heap \<Rightarrow> nat \<Rightarrow> panic + (string \<times> heap)" where
  "Shift h req =
     (case load_request h req of
        Inl e \<Rightarrow> Inl e
      | Inr r \<Rightarrow>
          (case load_url h (URL r) of
             Inl e \<Rightarrow> Inl e
           | Inr u \<Rightarrow>
               (case shift (URL_Path u) of
                  Inl e \<Rightarrow> Inl e
                | Inr (seg, rest) \<Rightarrow>
                    Inr (seg, h\<lparr>urls := (urls h)[URL r := u\<lparr>URL_Path := rest\<rparr>]\<rparr>))))"

text \<open>
  \<^verbatim>\<open>
  func WithPath(req *http.Request) *http.Request {
      ctx := req.Context()
      if ctx.Value(pathKey) != nil {
          return req
      }
      vctx := context.WithValue(ctx, pathKey, req.URL.Path)
      return req.WithContext(vctx)
  }
  \<close>
\<close>

definition WithPath :: "heap \<Rightarrow> nat \<Rightarrow> panic + (nat \<times> heap)" where
  "WithPath h req =
     (case load_request h req of
        Inl e \<Rightarrow> Inl e
      | Inr r \<Rightarrow>
          (let c = Context r in
           if Value c (key_value pathKey) \<noteq> nil then Inr (req, h)
           else
             (case load_url h (URL r) of
                Inl e \<Rightarrow> Inl e
              | Inr u \<Rightarrow>
                  (case WithValue c (key_value pathKey) (string_value (URL_Path u)) of
                     Inl e \<Rightarrow> Inl e
                   | Inr vctx \<Rightarrow> WithContext h req vctx))))"

text \<open>
  \<^verbatim>\<open>
  func Path(req *http.Request) string {
      val := req.Context().Value(pathKey)
      if val == nil {
          return ""
      }
      return val.(string)
  }
  \<close>
\<close>

definition Path :: "heap \<Rightarrow> nat \<Rightarrow> panic + string" where
  "Path h req =
     (case load_request h req of
        Inl e \<Rightarrow> Inl e
      | Inr r \<Rightarrow>
          (let val = Value (Context r) (key_value pathKey) in
           if val = nil then Inr '''' else assert_string val))"

text \<open>
  \<^verbatim>\<open>
  func WithRequestID(req *http.Request, id string) *http.Request {
      ctx := req.Context()
      val := ctx.Value(requestIDKey)
      if val != nil {
          return req
      }
      return req.WithContext(context.WithValue(ctx, requestIDKey, id))
  }
  \<close>
\<close>

definition WithRequestID :: "heap \<Rightarrow> nat \<Rightarrow> string \<Rightarrow> panic + (nat \<times> heap)" where
  "WithRequestID h req ident =
     (case load_request h req of
        Inl e \<Rightarrow> Inl e
      | Inr r \<Rightarrow>
          (let c = Context r; val = Value c (key_value requestIDKey) in
           if val \<noteq> nil then Inr (req, h)
           else
             (case WithValue c (key_value requestIDKey) (string_value ident) of
                Inl e \<Rightarrow> Inl e
              | Inr vctx \<Rightarrow> WithContext h req vctx)))"

text \<open>
  \<^verbatim>\<open>
  func RequestID(req *http.Request) string {
      val := req.Context().Value(requestIDKey)
      if val == nil {
          return ""
      }
      return val.(string)
  }
  \<close>
\<close>

definition RequestID :: "heap \<Rightarrow> nat \<Rightarrow> panic + string" where
  "RequestID h req =
     (case load_request h req of
        Inl e \<Rightarrow> Inl e
      | Inr r \<Rightarrow>
          (let val = Value (Context r) (key_value requestIDKey) in
           if val = nil then Inr '''' else assert_string val))"

text \<open>\<open>n\<close> successive calls \<^verbatim>\<open>Shift(req)\<close> on the same request, the segments dropped.\<close>

fun Shift_times :: "nat \<Rightarrow> heap \<Rightarrow> nat \<Rightarrow> panic + heap" where
  "Shift_times 0 h req = Inr h"
| "Shift_times (Suc n) h req =
     (case Shift h req of Inl e \<Rightarrow> Inl e | Inr (seg, h') \<Rightarrow> Shift_times n h' req)"

text \<open>The request and the URL of \<^verbatim>\<open>TestContext\<close>, the test of the package: the path
  \<^verbatim>\<open>/abc/xyz\<close> and a context that nothing has touched.\<close>

definition test_request :: request where
  "test_request = \<lparr>Method = ''GET'', URL = 0, RemoteAddr = '''', ctx = Some Background\<rparr>"

definition test_url :: url where
  "test_url = \<lparr>Scheme = ''http'', Host = ''example.com'', URL_Path = ''/abc/xyz''\<rparr>"

definition test_heap :: "bool \<Rightarrow> heap" where
  "test_heap clone = \<lparr>requests = [test_request], urls = [test_url], clone_url = clone\<rparr>"

text \<open>The same request later on: tagged with the path and with the identifier \<^verbatim>\<open>r1\<close>,
  and shifted once.\<close>

definition tagged_request :: request where
  "tagged_request =
     test_request\<lparr>ctx := Some (valueCtx
       (valueCtx Background (key_value pathKey) (string_value ''/abc/xyz''))
       (key_value requestIDKey) (string_value ''r1''))\<rparr>"

definition tagged_heap :: "bool \<Rightarrow> heap" where
  "tagged_heap clone =
     \<lparr>requests = [tagged_request], urls = [test_url\<lparr>URL_Path := ''/xyz''\<rparr>],
      clone_url = clone\<rparr>"

section \<open>Properties of the scan\<close>

lemma IndexByte_from_range:
  "IndexByte_from i s c = - 1 \<or> (i \<le> IndexByte_from i s c \<and> IndexByte_from i s c < i + int (length s))"
  if "0 \<le> i"
  using that
proof (induction s arbitrary: i)
  case Nil
  then show ?case by simp
next
  case (Cons x xs)
  from Cons.prems have "0 \<le> i + 1" by simp
  from Cons.IH [OF this] Cons.prems show ?case by auto
qed

lemma IndexByte_range:
  "IndexByte s c = - 1 \<or> (0 \<le> IndexByte s c \<and> IndexByte s c < int (length s))"
  using IndexByte_from_range [of 0 s c] by (simp add: IndexByte_def)

lemma IndexByte_Cons:
  "IndexByte (x # xs) c = (if x = c then 0 else IndexByte_from 1 xs c)"
  by (simp add: IndexByte_def)

text \<open>The byte at a found index is the byte looked for, and none before it is.\<close>

lemma IndexByte_from_found:
  "0 \<le> i \<Longrightarrow> IndexByte_from i s c \<noteq> - 1 \<Longrightarrow>
     s ! nat (IndexByte_from i s c - i) = c \<and> c \<notin> set (take (nat (IndexByte_from i s c - i)) s)"
proof (induction s arbitrary: i)
  case Nil
  then show ?case by simp
next
  case (Cons x xs)
  show ?case
  proof (cases "x = c")
    case True
    then show ?thesis by simp
  next
    case False
    from Cons.prems have nn: "0 \<le> i + 1" by simp
    from False Cons.prems have found: "IndexByte_from (i + 1) xs c \<noteq> - 1" by simp
    from IndexByte_from_range [OF nn, of xs c] found
    have ge: "i + 1 \<le> IndexByte_from (i + 1) xs c" by simp
    then have eq: "nat (IndexByte_from (i + 1) xs c - i) = Suc (nat (IndexByte_from (i + 1) xs c - (i + 1)))"
      by simp
    from Cons.IH [OF nn found] False show ?thesis
      by (simp add: eq)
  qed
qed

lemma IndexByte_from_absent:
  "IndexByte_from i s c = - 1 \<Longrightarrow> 0 \<le> i \<Longrightarrow> c \<notin> set s"
proof (induction s arbitrary: i)
  case Nil
  then show ?case by simp
next
  case (Cons x xs)
  then show ?case
    by (cases "x = c") auto
qed

section \<open>Properties of the shifter\<close>

lemma shift_nonempty:
  "shift (x # y # ys) =
     (if IndexByte (y # ys) CHR ''/'' \<noteq> - 1
      then Inr (take (nat (IndexByte (y # ys) CHR ''/'')) (y # ys),
                drop (nat (IndexByte (y # ys) CHR ''/'')) (y # ys))
      else Inr (y # ys, ''''))"
proof -
  have "IndexByte (y # ys) CHR ''/'' = - 1 \<or>
    (0 \<le> IndexByte (y # ys) CHR ''/'' \<and> IndexByte (y # ys) CHR ''/'' < int (length (y # ys)))"
    by (rule IndexByte_range)
  then show ?thesis
    by (auto simp: shift_def slice_from_def slice_to_def Let_def)
qed

lemma shift_single:
  "shift [x] = (if x = CHR ''/'' then Inr ('''', [x]) else Inr ('''', ''''))"
  by (simp add: shift_def slice_from_def IndexByte_def)

text \<open>The shifter returns on every string: no slice is out of range.\<close>

lemma shift_returns: "\<exists>seg rest. shift path = Inr (seg, rest)"
proof (cases path)
  case Nil
  then show ?thesis by (simp add: shift_def)
next
  case (Cons x xs)
  show ?thesis
  proof (cases xs)
    case Nil
    with Cons show ?thesis by (simp add: shift_single)
  next
    case (Cons y ys)
    with \<open>path = x # xs\<close> show ?thesis
      by (simp add: shift_nonempty)
  qed
qed

text \<open>The walk down \<^verbatim>\<open>/abc/xyz/t\<close>, one segment at a time.\<close>

lemma shift_walk:
  "shift ''/abc/xyz/t'' = Inr (''abc'', ''/xyz/t'')
   \<and> shift ''/xyz/t'' = Inr (''xyz'', ''/t'')
   \<and> shift ''/t'' = Inr (''t'', '''')
   \<and> shift '''' = Inr ('''', '''')"
  by (simp add: shift_def slice_from_def slice_to_def IndexByte_def)

text \<open>The segment never holds a slash, and the rest is empty or begins with one.\<close>

lemma shift_segment:
  assumes "valid_path p" and "shift p = Inr (seg, rest)"
  shows "CHR ''/'' \<notin> set seg \<and> valid_path rest"
proof (cases p)
  case Nil
  with assms(2) show ?thesis by (simp add: shift_def valid_path_def)
next
  case (Cons x xs)
  show ?thesis
  proof (cases xs)
    case Nil
    with Cons assms show ?thesis by (auto simp: shift_single valid_path_def split: if_splits)
  next
    case (Cons y ys)
    with \<open>p = x # xs\<close> have p: "p = x # y # ys" by simp
    let ?i = "IndexByte (y # ys) CHR ''/''"
    show ?thesis
    proof (cases "?i = - 1")
      case True
      then have "CHR ''/'' \<notin> set (y # ys)"
        using IndexByte_from_absent [of 0 "y # ys" "CHR ''/''"] by (simp add: IndexByte_def)
      with True p assms(2) show ?thesis by (auto simp: shift_nonempty valid_path_def)
    next
      case False
      from IndexByte_from_found [of 0 "y # ys" "CHR ''/''"] False
      have at: "(y # ys) ! nat ?i = CHR ''/''" and before: "CHR ''/'' \<notin> set (take (nat ?i) (y # ys))"
        by (simp_all add: IndexByte_def)
      from IndexByte_range [of "y # ys" "CHR ''/''"] False
      have lt: "nat ?i < length (y # ys)" by auto
      from False p assms(2) have seg: "seg = take (nat ?i) (y # ys)"
        and rest: "rest = drop (nat ?i) (y # ys)"
        by (simp_all add: shift_nonempty)
      from lt have "drop (nat ?i) (y # ys) = (y # ys) ! nat ?i # drop (Suc (nat ?i)) (y # ys)"
        by (rule Cons_nth_drop_Suc [symmetric])
      with at have "take 1 (drop (nat ?i) (y # ys)) = ''/''"
        by simp
      with seg rest before show ?thesis by (simp add: valid_path_def)
    qed
  qed
qed

text \<open>
  C1. The table of edge cases of the shifter: the seven literal inputs and the segment
  and rest that each one yields.
\<close>

theorem shift_edge_cases:
  "shift '''' = Inr ('''', '''')
   \<and> shift ''/'' = Inr ('''', ''/'')
   \<and> shift ''/xyz'' = Inr (''xyz'', '''')
   \<and> shift ''/xyz/'' = Inr (''xyz'', ''/'')
   \<and> shift ''/abc/xyz'' = Inr (''abc'', ''/xyz'')
   \<and> shift ''/abc/xyz/'' = Inr (''abc'', ''/xyz/'')
   \<and> shift ''/abc/xyz/t'' = Inr (''abc'', ''/xyz/t'')"
  by (simp add: shift_def slice_from_def slice_to_def IndexByte_def)

text \<open>
  C7. The shifter is total and safe: on every string, with or without the \<^verbatim>\<open>"/"\<close>
  prefix, no slice expression is out of range, nothing panics, and a pair of strings is
  returned. (Termination is that of the scan, a structural recursion over the string.)
\<close>

theorem shift_total: "\<exists>seg rest. shift path = Inr (seg, rest)"
  by (rule shift_returns)

text \<open>
  C10. An empty leading segment: on a path that begins with \<^verbatim>\<open>"//"\<close> the shifter
  returns the segment \<^verbatim>\<open>""\<close> and, as the rest, the path without its first byte. The
  rest differs from the path: an empty segment does not mean that nothing was consumed.
\<close>

theorem shift_double_slash:
  "shift (''//'' @ t) = Inr ('''', tl (''//'' @ t))
   \<and> valid_path (''//'' @ t)
   \<and> tl (''//'' @ t) = ''/'' @ t
   \<and> tl (''//'' @ t) \<noteq> ''//'' @ t"
  by (simp add: shift_nonempty IndexByte_Cons valid_path_def)

text \<open>
  C2, as stated, fails. The path \<^verbatim>\<open>"//"\<close> satisfies the precondition and yields an
  empty segment, yet the rest is \<^verbatim>\<open>"/"\<close>, not the path itself.
\<close>

theorem shift_empty_segment_not_noop:
  "valid_path ''//'' \<and> shift ''//'' = Inr ('''', ''/'') \<and> ''/'' \<noteq> ''//''"
  by (simp add: valid_path_def shift_nonempty IndexByte_Cons)

text \<open>
  C2, amended. For every path \<open>p\<close> that is empty or begins with \<^verbatim>\<open>"/"\<close>, with
  \<open>shift p = (seg, rest)\<close>: if \<open>seg\<close> is not empty then \<^verbatim>\<open>"/" + seg + rest\<close> is \<open>p\<close>;
  if \<open>seg\<close> is empty then either \<open>p\<close> is \<^verbatim>\<open>""\<close> or \<^verbatim>\<open>"/"\<close> and \<open>rest\<close> is \<open>p\<close> (nothing is
  consumed), or \<open>p\<close> begins with \<^verbatim>\<open>"//"\<close> and \<^verbatim>\<open>"/" + rest\<close> is \<open>p\<close> (one slash is
  consumed).
\<close>

theorem shift_roundtrip:
  assumes "valid_path p" and "shift p = Inr (seg, rest)"
  shows "(seg \<noteq> '''' \<longrightarrow> ''/'' @ seg @ rest = p)
    \<and> (seg = '''' \<longrightarrow>
         (if p = '''' \<or> p = ''/'' then rest = p else take 2 p = ''//'' \<and> ''/'' @ rest = p))"
proof (cases p)
  case Nil
  with assms(2) show ?thesis by (simp add: shift_def)
next
  case (Cons x xs)
  with assms(1) have x: "x = CHR ''/''" by (simp add: valid_path_def)
  show ?thesis
  proof (cases xs)
    case Nil
    with Cons x assms(2) show ?thesis by (simp add: shift_single)
  next
    case (Cons y ys)
    with \<open>p = x # xs\<close> x have p: "p = CHR ''/'' # y # ys" by simp
    show ?thesis
    proof (cases "IndexByte (y # ys) CHR ''/'' = - 1")
      case True
      with p assms(2) show ?thesis by (auto simp: shift_nonempty)
    next
      case False
      with p assms(2) have seg: "seg = take (nat (IndexByte (y # ys) CHR ''/'')) (y # ys)"
        and rest: "rest = drop (nat (IndexByte (y # ys) CHR ''/'')) (y # ys)"
        by (simp_all add: shift_nonempty)
      from seg rest have whole: "seg @ rest = y # ys" by simp
      show ?thesis
      proof (cases "seg = ''''")
        case False
        with whole p show ?thesis by simp
      next
        case True
        with whole have r: "rest = y # ys" by simp
        from IndexByte_range [of "y # ys" "CHR ''/''"] \<open>IndexByte (y # ys) CHR ''/'' \<noteq> - 1\<close>
        have "0 \<le> IndexByte (y # ys) CHR ''/''" "IndexByte (y # ys) CHR ''/'' < int (length (y # ys))"
          by simp_all
        with True seg have zero: "IndexByte (y # ys) CHR ''/'' = 0" by simp
        have "y = CHR ''/''"
        proof (rule ccontr)
          assume "y \<noteq> CHR ''/''"
          with zero have "IndexByte_from 1 ys CHR ''/'' = 0" by (simp add: IndexByte_Cons)
          with IndexByte_from_range [of 1 ys "CHR ''/''"] show False by simp
        qed
        with True r p show ?thesis by simp
      qed
    qed
  qed
qed

theorem shift_roundtrip_witness:
  "(valid_path ''/abc/xyz'' \<and> shift ''/abc/xyz'' = Inr (''abc'', ''/xyz'')
      \<and> ''abc'' \<noteq> '''' \<and> ''/'' @ ''abc'' @ ''/xyz'' = ''/abc/xyz'')
   \<and> (valid_path ''//t'' \<and> shift ''//t'' = Inr ('''', ''/t'')
      \<and> take 2 ''//t'' = ''//'' \<and> ''/'' @ ''/t'' = ''//t'')
   \<and> (valid_path ''/'' \<and> shift ''/'' = Inr ('''', ''/''))"
proof -
  have v1: "valid_path ''/abc/xyz''" and v2: "valid_path ''//t''" and v3: "valid_path ''/''"
    by (simp_all add: valid_path_def)
  have s1: "shift ''/abc/xyz'' = Inr (''abc'', ''/xyz'')"
    and s2: "shift ''//t'' = Inr ('''', ''/t'')"
    and s3: "shift ''/'' = Inr ('''', ''/'')"
    by (simp_all add: shift_def slice_from_def slice_to_def IndexByte_def)
  from shift_roundtrip [OF v1 s1] shift_roundtrip [OF v2 s2] shift_roundtrip [OF v3 s3]
    v1 v2 v3 s1 s2 s3
  show ?thesis by simp
qed

section \<open>Loads, lookups and frames\<close>

lemma load_request_Inr:
  "load_request h req = Inr r \<longleftrightarrow> req < length (requests h) \<and> requests h ! req = r"
  by (simp add: load_request_def)

lemma load_url_Inr:
  "load_url h a = Inr u \<longleftrightarrow> a < length (urls h) \<and> urls h ! a = u"
  by (simp add: load_url_def)

lemma Value_untouched: "\<not> has_value c k \<Longrightarrow> Value c k = nil"
  by (induction c) auto

lemma Value_new_context:
  "ctx r2 = Some (valueCtx c k v) \<Longrightarrow> Value (Context r2) k = v"
  by (simp add: Context_def)

lemma Path_requests: "requests h' = requests h \<Longrightarrow> Path h' q = Path h q"
  by (simp add: Path_def load_request_def)

lemma Path_stored:
  "load_request h req = Inr r \<Longrightarrow> Value (Context r) (key_value pathKey) = string_value p
    \<Longrightarrow> Path h req = Inr p"
  by (simp add: Path_def assert_string_def)

lemma RequestID_stored:
  "load_request h req = Inr r \<Longrightarrow> Value (Context r) (key_value requestIDKey) = string_value p
    \<Longrightarrow> RequestID h req = Inr p"
  by (simp add: RequestID_def assert_string_def)

section \<open>What each operation returns\<close>

lemma Shift_result:
  assumes "load_request h req = Inr r" and "load_url h (URL r) = Inr u"
  shows "\<exists>seg rest. shift (URL_Path u) = Inr (seg, rest)
    \<and> Shift h req = Inr (seg, h\<lparr>urls := (urls h)[URL r := u\<lparr>URL_Path := rest\<rparr>]\<rparr>)"
proof -
  obtain seg rest where "shift (URL_Path u) = Inr (seg, rest)"
    using shift_returns by blast
  with assms show ?thesis by (simp add: Shift_def)
qed

lemma Shift_load_url:
  assumes "load_url h a = Inr u"
  shows "load_url (h\<lparr>urls := (urls h)[a := u']\<rparr>) b = (if b = a then Inr u' else load_url h b)"
  using assms by (auto simp: load_url_def)

lemma Shift_frame:
  "Shift h req = Inr (seg, h') \<Longrightarrow> requests h' = requests h \<and> length (urls h') = length (urls h)"
  by (auto simp: Shift_def split: sum.splits prod.splits)

lemma Shift_times_frame:
  assumes "load_request h req = Inr r" and "URL r < length (urls h)"
  shows "\<exists>h'. Shift_times n h req = Inr h' \<and> requests h' = requests h
    \<and> length (urls h') = length (urls h)"
  using assms
proof (induction n arbitrary: h)
  case 0
  then show ?case by simp
next
  case (Suc n)
  from Suc.prems have u: "load_url h (URL r) = Inr (urls h ! URL r)"
    by (simp add: load_url_def)
  from Shift_result [OF Suc.prems(1) u] obtain seg h1
    where s: "Shift h req = Inr (seg, h1)" by blast
  from Shift_frame [OF s] have fr: "requests h1 = requests h" "length (urls h1) = length (urls h)"
    by simp_all
  with Suc.prems have "load_request h1 req = Inr r" "URL r < length (urls h1)"
    by (simp_all add: load_request_Inr)
  from Suc.IH [OF this] fr s show ?case by simp
qed

lemma WithContext_result:
  assumes "load_request h req = Inr r"
  shows "\<exists>r2 h'. WithContext h req c = Inr (length (requests h), h')
    \<and> requests h' = requests h @ [r2]
    \<and> r2\<lparr>URL := URL r\<rparr> = r\<lparr>ctx := Some c\<rparr>
    \<and> load_url h' (URL r2) = load_url h (URL r)
    \<and> (\<forall>a. a < length (urls h) \<longrightarrow> load_url h' a = load_url h a)
    \<and> clone_url h' = clone_url h"
proof (cases "clone_url h \<and> URL r < length (urls h)")
  case True
  let ?r2 = "r\<lparr>ctx := Some c, URL := length (urls h)\<rparr>"
  let ?h' = "h\<lparr>requests := requests h @ [?r2], urls := urls h @ [urls h ! URL r]\<rparr>"
  from True assms have "WithContext h req c = Inr (length (requests h), ?h')"
    by (simp add: WithContext_def)
  moreover have "requests ?h' = requests h @ [?r2]" "?r2\<lparr>URL := URL r\<rparr> = r\<lparr>ctx := Some c\<rparr>"
    "clone_url ?h' = clone_url h"
    by simp_all
  moreover from True have "load_url ?h' (URL ?r2) = load_url h (URL r)"
    by (simp add: load_url_def)
  moreover have "\<forall>a. a < length (urls h) \<longrightarrow> load_url ?h' a = load_url h a"
    by (simp add: load_url_def nth_append)
  ultimately show ?thesis by blast
next
  case False
  let ?r2 = "r\<lparr>ctx := Some c\<rparr>"
  let ?h' = "h\<lparr>requests := requests h @ [?r2]\<rparr>"
  from False assms have "WithContext h req c = Inr (length (requests h), ?h')"
    by (auto simp: WithContext_def)
  moreover have "requests ?h' = requests h @ [?r2]" "?r2\<lparr>URL := URL r\<rparr> = r\<lparr>ctx := Some c\<rparr>"
    "clone_url ?h' = clone_url h"
    by simp_all
  moreover have "load_url ?h' (URL ?r2) = load_url h (URL r)"
    by (simp add: load_url_def)
  moreover have "\<forall>a. a < length (urls h) \<longrightarrow> load_url ?h' a = load_url h a"
    by (simp add: load_url_def)
  ultimately show ?thesis by blast
qed

lemma WithPath_present:
  assumes "load_request h req = Inr r" and "Value (Context r) (key_value pathKey) \<noteq> nil"
  shows "WithPath h req = Inr (req, h)"
  using assms by (simp add: WithPath_def)

lemma WithPath_absent:
  assumes "load_request h req = Inr r" and "Value (Context r) (key_value pathKey) = nil"
    and "load_url h (URL r) = Inr u"
  shows "WithPath h req =
    WithContext h req (valueCtx (Context r) (key_value pathKey) (string_value (URL_Path u)))"
  using assms by (simp add: WithPath_def WithValue_def)

lemma WithRequestID_present:
  assumes "load_request h req = Inr r" and "Value (Context r) (key_value requestIDKey) \<noteq> nil"
  shows "WithRequestID h req ident = Inr (req, h)"
  using assms by (simp add: WithRequestID_def)

lemma WithRequestID_absent:
  assumes "load_request h req = Inr r" and "Value (Context r) (key_value requestIDKey) = nil"
  shows "WithRequestID h req ident =
    WithContext h req (valueCtx (Context r) (key_value requestIDKey) (string_value ident))"
  using assms by (simp add: WithRequestID_def WithValue_def)

text \<open>A "with" operation that adds a value: the new request, and what it leaves alone.\<close>

lemma with_new_request:
  assumes "load_request h req = Inr r"
    and "WithContext h req (valueCtx (Context r) k v) = Inr (req', h')"
  shows "req' = length (requests h) \<and> req' \<noteq> req \<and> clone_url h' = clone_url h
    \<and> (\<forall>q. q < length (requests h) \<longrightarrow> load_request h' q = load_request h q)
    \<and> (\<forall>a. a < length (urls h) \<longrightarrow> load_url h' a = load_url h a)
    \<and> (\<exists>r2. load_request h' req' = Inr r2
          \<and> r2\<lparr>URL := URL r\<rparr> = r\<lparr>ctx := Some (valueCtx (Context r) k v)\<rparr>
          \<and> load_url h' (URL r2) = load_url h (URL r)
          \<and> Value (Context r2) k = v)"
proof -
  from WithContext_result [OF assms(1), of "valueCtx (Context r) k v"] assms(2)
  obtain r2 where req': "req' = length (requests h)"
    and rs: "requests h' = requests h @ [r2]"
    and r2: "r2\<lparr>URL := URL r\<rparr> = r\<lparr>ctx := Some (valueCtx (Context r) k v)\<rparr>"
    and u2: "load_url h' (URL r2) = load_url h (URL r)"
    and us: "\<forall>a. a < length (urls h) \<longrightarrow> load_url h' a = load_url h a"
    and cl: "clone_url h' = clone_url h"
    by auto
  from assms(1) req' have "req' \<noteq> req" by (simp add: load_request_Inr)
  moreover from rs have "\<forall>q. q < length (requests h) \<longrightarrow> load_request h' q = load_request h q"
    by (simp add: load_request_def nth_append)
  moreover from rs req' have l2: "load_request h' req' = Inr r2"
    by (simp add: load_request_def)
  moreover from r2 have "ctx (r2\<lparr>URL := URL r\<rparr>) = Some (valueCtx (Context r) k v)" by simp
  then have "ctx r2 = Some (valueCtx (Context r) k v)" by simp
  then have "Value (Context r2) k = v" by (rule Value_new_context)
  ultimately show ?thesis using req' cl us r2 u2 by blast
qed

lemma with_returns:
  assumes "load_request h req = Inr r"
  shows "\<exists>req' h'. WithContext h req c = Inr (req', h')"
  using WithContext_result [OF assms, of c] by blast

section \<open>The test of the package, evaluated\<close>

lemma test_request_loaded: "load_request (test_heap clone) 0 = Inr test_request"
  by (simp add: test_heap_def load_request_def)

lemma test_url_loaded: "load_url (test_heap clone) (URL test_request) = Inr test_url"
  by (simp add: test_heap_def test_request_def load_url_def)

lemma test_request_untouched:
  "Value (Context test_request) k = nil" "\<not> has_value (Context test_request) k"
  by (simp_all add: test_request_def Context_def)

lemma test_live_path: "live_path (test_heap clone) 0 = Inr ''/abc/xyz''"
  by (simp add: live_path_def test_request_loaded test_url_loaded) (simp add: test_url_def)

lemma tagged_request_loaded: "load_request (tagged_heap clone) 0 = Inr tagged_request"
  by (simp add: tagged_heap_def load_request_def)

lemma tagged_url_loaded:
  "load_url (tagged_heap clone) (URL tagged_request) = Inr (test_url\<lparr>URL_Path := ''/xyz''\<rparr>)"
  by (simp add: tagged_heap_def tagged_request_def test_request_def load_url_def)

lemma tagged_request_values:
  "Value (Context tagged_request) (key_value pathKey) = string_value ''/abc/xyz''"
  "Value (Context tagged_request) (key_value requestIDKey) = string_value ''r1''"
  by (simp_all add: tagged_request_def Context_def pathKey_def requestIDKey_def)

text \<open>
  \<^verbatim>\<open>TestContext\<close>: \<^verbatim>\<open>Path\<close> of the fresh request is empty; \<^verbatim>\<open>WithPath\<close> returns a new
  request; \<^verbatim>\<open>Shift\<close> on it returns \<^verbatim>\<open>"abc"\<close> and leaves the live path \<^verbatim>\<open>"/xyz"\<close>; a second
  \<^verbatim>\<open>WithPath\<close> returns the same pointer; \<^verbatim>\<open>Path\<close> is still \<^verbatim>\<open>"/abc/xyz"\<close>. The URL of the
  original request is shifted as well exactly when the two requests share it.
\<close>

lemma TestContext_scenario:
  "Path (test_heap clone) 0 = Inr ''''
   \<and> (\<exists>h1 h2. WithPath (test_heap clone) 0 = Inr (1, h1) \<and> Shift h1 1 = Inr (''abc'', h2)
        \<and> live_path h2 1 = Inr ''/xyz'' \<and> WithPath h2 1 = Inr (1, h2)
        \<and> Path h2 1 = Inr ''/abc/xyz''
        \<and> live_path h2 0 = Inr (if clone then ''/abc/xyz'' else ''/xyz''))"
  by (cases clone)
    (simp_all add: test_heap_def test_request_def test_url_def Path_def WithPath_def Shift_def
      live_path_def load_request_def load_url_def Context_def WithValue_def WithContext_def
      assert_string_def shift_def slice_from_def slice_to_def IndexByte_def pathKey_def)

section \<open>Properties of the context registry\<close>

text \<open>
  C3. For a request \<open>req\<close> on which \<^verbatim>\<open>WithPath\<close> is called for the first time (no value is
  stored under \<open>pathKey\<close> yet) and whose live path is then \<open>p\<close>: \<^verbatim>\<open>Path(WithPath(req))\<close> is
  \<open>p\<close>; and after any number \<open>n\<close> of later \<^verbatim>\<open>Shift\<close> calls on the returned request, which
  all succeed, \<^verbatim>\<open>Path\<close> still returns \<open>p\<close>, the value under \<open>pathKey\<close> is still there, and
  a later \<^verbatim>\<open>WithPath\<close> does not capture the shifted path.
\<close>

theorem original_path_preserved:
  assumes "load_request h req = Inr r"
    and "Value (Context r) (key_value pathKey) = nil"
    and "live_path h req = Inr p"
  shows "\<exists>req' h1. WithPath h req = Inr (req', h1) \<and> Path h1 req' = Inr p
    \<and> (\<forall>n. \<exists>h2. Shift_times n h1 req' = Inr h2 \<and> Path h2 req' = Inr p
          \<and> WithPath h2 req' = Inr (req', h2))"
proof -
  from assms(1,3) have u: "load_url h (URL r) = Inr (urls h ! URL r)"
    and p: "URL_Path (urls h ! URL r) = p"
    by (auto simp: live_path_def load_url_def split: if_splits)
  let ?c = "valueCtx (Context r) (key_value pathKey) (string_value p)"
  from WithPath_absent [OF assms(1,2) u] p
  have w: "WithPath h req = WithContext h req ?c" by simp
  from with_returns [OF assms(1)] obtain req' h1
    where wc: "WithContext h req ?c = Inr (req', h1)" by blast
  from with_new_request [OF assms(1) wc] obtain r2
    where l1: "load_request h1 req' = Inr r2"
      and u2: "load_url h1 (URL r2) = load_url h (URL r)"
      and v: "Value (Context r2) (key_value pathKey) = string_value p"
    by blast
  from l1 v have p1: "Path h1 req' = Inr p" by (rule Path_stored)
  from u2 u have live: "URL r2 < length (urls h1)" by (simp add: load_url_Inr)
  have "\<exists>h2. Shift_times n h1 req' = Inr h2 \<and> Path h2 req' = Inr p
      \<and> WithPath h2 req' = Inr (req', h2)" for n
  proof -
    from Shift_times_frame [OF l1 live, of n] obtain h2
      where s: "Shift_times n h1 req' = Inr h2" and fr: "requests h2 = requests h1"
      by blast
    from Path_requests [OF fr, of req'] p1 have "Path h2 req' = Inr p" by simp
    moreover from fr l1 have l2: "load_request h2 req' = Inr r2" by (simp add: load_request_Inr)
    from v have "Value (Context r2) (key_value pathKey) \<noteq> nil" by simp
    from WithPath_present [OF l2 this] have "WithPath h2 req' = Inr (req', h2)" .
    ultimately show ?thesis using s by simp
  qed
  with w wc p1 show ?thesis by auto
qed

theorem original_path_preserved_witness:
  "load_request (test_heap True) 0 = Inr test_request
   \<and> Value (Context test_request) (key_value pathKey) = nil
   \<and> live_path (test_heap True) 0 = Inr ''/abc/xyz''
   \<and> (\<exists>req' h1. WithPath (test_heap True) 0 = Inr (req', h1) \<and> Path h1 req' = Inr ''/abc/xyz''
        \<and> (\<forall>n. \<exists>h2. Shift_times n h1 req' = Inr h2 \<and> Path h2 req' = Inr ''/abc/xyz''
              \<and> WithPath h2 req' = Inr (req', h2)))"
proof -
  have a: "load_request (test_heap True) 0 = Inr test_request"
    by (rule test_request_loaded)
  have b: "Value (Context test_request) (key_value pathKey) = nil"
    by (rule test_request_untouched)
  have c: "live_path (test_heap True) 0 = Inr ''/abc/xyz''"
    by (rule test_live_path)
  show ?thesis
    by (rule conjI [OF a conjI [OF b conjI [OF c original_path_preserved [OF a b c]]]])
qed

text \<open>
  C4. Idempotence by reference. On a request whose context already holds a value under
  the key, \<^verbatim>\<open>WithPath\<close> (and \<^verbatim>\<open>WithRequestID\<close>, with any identifier) returns the very
  pointer it was given and allocates nothing. Hence, on every request, the second of two
  successive calls returns the pointer that the first one returned.
\<close>

theorem with_idempotent_by_reference:
  assumes "load_request h req = Inr r" and "load_url h (URL r) = Inr u"
  shows "(Value (Context r) (key_value pathKey) \<noteq> nil \<longrightarrow> WithPath h req = Inr (req, h))
    \<and> (Value (Context r) (key_value requestIDKey) \<noteq> nil \<longrightarrow>
          WithRequestID h req id1 = Inr (req, h))
    \<and> (\<exists>req1 h1. WithPath h req = Inr (req1, h1) \<and> WithPath h1 req1 = Inr (req1, h1))
    \<and> (\<exists>req1 h1. WithRequestID h req id1 = Inr (req1, h1)
          \<and> WithRequestID h1 req1 id2 = Inr (req1, h1))"
proof (intro conjI impI)
  assume "Value (Context r) (key_value pathKey) \<noteq> nil"
  with assms(1) show "WithPath h req = Inr (req, h)" by (rule WithPath_present)
next
  assume "Value (Context r) (key_value requestIDKey) \<noteq> nil"
  with assms(1) show "WithRequestID h req id1 = Inr (req, h)" by (rule WithRequestID_present)
next
  show "\<exists>req1 h1. WithPath h req = Inr (req1, h1) \<and> WithPath h1 req1 = Inr (req1, h1)"
  proof (cases "Value (Context r) (key_value pathKey) = nil")
    case False
    from WithPath_present [OF assms(1) False] show ?thesis by simp
  next
    case True
    let ?c = "valueCtx (Context r) (key_value pathKey) (string_value (URL_Path u))"
    from with_returns [OF assms(1)] obtain req1 h1
      where wc: "WithContext h req ?c = Inr (req1, h1)" by blast
    with WithPath_absent [OF assms(1) True assms(2)]
    have first: "WithPath h req = Inr (req1, h1)" by simp
    from with_new_request [OF assms(1) wc] obtain r2
      where l: "load_request h1 req1 = Inr r2"
        and v: "Value (Context r2) (key_value pathKey) = string_value (URL_Path u)"
      by blast
    from v have "Value (Context r2) (key_value pathKey) \<noteq> nil" by simp
    from WithPath_present [OF l this] first show ?thesis by simp
  qed
next
  show "\<exists>req1 h1. WithRequestID h req id1 = Inr (req1, h1)
          \<and> WithRequestID h1 req1 id2 = Inr (req1, h1)"
  proof (cases "Value (Context r) (key_value requestIDKey) = nil")
    case False
    from WithRequestID_present [OF assms(1) False] show ?thesis by simp
  next
    case True
    let ?c = "valueCtx (Context r) (key_value requestIDKey) (string_value id1)"
    from with_returns [OF assms(1)] obtain req1 h1
      where wc: "WithContext h req ?c = Inr (req1, h1)" by blast
    with WithRequestID_absent [OF assms(1) True]
    have first: "WithRequestID h req id1 = Inr (req1, h1)" by simp
    from with_new_request [OF assms(1) wc] obtain r2
      where l: "load_request h1 req1 = Inr r2"
        and v: "Value (Context r2) (key_value requestIDKey) = string_value id1"
      by blast
    from v have "Value (Context r2) (key_value requestIDKey) \<noteq> nil" by simp
    from WithRequestID_present [OF l this] first show ?thesis by simp
  qed
qed

theorem with_idempotent_by_reference_witness:
  "(load_request (test_heap True) 0 = Inr test_request
    \<and> load_url (test_heap True) (URL test_request) = Inr test_url
    \<and> (\<exists>req1 h1. WithPath (test_heap True) 0 = Inr (req1, h1)
          \<and> WithPath h1 req1 = Inr (req1, h1))
    \<and> (\<exists>req1 h1. WithRequestID (test_heap True) 0 ''r1'' = Inr (req1, h1)
          \<and> WithRequestID h1 req1 ''r2'' = Inr (req1, h1)))
   \<and> (load_request (tagged_heap True) 0 = Inr tagged_request
    \<and> load_url (tagged_heap True) (URL tagged_request) = Inr (test_url\<lparr>URL_Path := ''/xyz''\<rparr>)
    \<and> Value (Context tagged_request) (key_value pathKey) \<noteq> nil
    \<and> Value (Context tagged_request) (key_value requestIDKey) \<noteq> nil
    \<and> WithPath (tagged_heap True) 0 = Inr (0, tagged_heap True)
    \<and> WithRequestID (tagged_heap True) 0 ''r2'' = Inr (0, tagged_heap True))"
proof -
  have set: "Value (Context tagged_request) (key_value pathKey) \<noteq> nil"
    "Value (Context tagged_request) (key_value requestIDKey) \<noteq> nil"
    by (simp_all add: tagged_request_values)
  note fresh = with_idempotent_by_reference [where h = "test_heap True" and req = 0
      and r = test_request and u = test_url and ?id1.0 = "''r1''" and ?id2.0 = "''r2''",
      OF test_request_loaded test_url_loaded]
  note tagged = with_idempotent_by_reference [where h = "tagged_heap True" and req = 0
      and r = tagged_request and ?id1.0 = "''r2''", OF tagged_request_loaded tagged_url_loaded]
  from fresh tagged set test_request_loaded [of True] test_url_loaded [of True]
    tagged_request_loaded [of True] tagged_url_loaded [of True]
  show ?thesis by blast
qed

text \<open>
  C5. The first identifier wins. On a request with no value under \<open>requestIDKey\<close>, after
  \<^verbatim>\<open>WithRequestID\<close> with \<open>r1\<close> and then, on the request returned, \<^verbatim>\<open>WithRequestID\<close> with
  \<open>r2\<close>, \<^verbatim>\<open>RequestID\<close> of the result returns \<open>r1\<close>.
\<close>

theorem first_request_id_wins:
  assumes "load_request h req = Inr r"
    and "Value (Context r) (key_value requestIDKey) = nil"
  shows "\<exists>req1 h1 req2 h2. WithRequestID h req r1 = Inr (req1, h1)
    \<and> WithRequestID h1 req1 r2 = Inr (req2, h2)
    \<and> RequestID h2 req2 = Inr r1"
proof -
  let ?c = "valueCtx (Context r) (key_value requestIDKey) (string_value r1)"
  from with_returns [OF assms(1)] obtain req1 h1
    where wc: "WithContext h req ?c = Inr (req1, h1)" by blast
  with WithRequestID_absent [OF assms]
  have first: "WithRequestID h req r1 = Inr (req1, h1)" by simp
  from with_new_request [OF assms(1) wc] obtain r'
    where l: "load_request h1 req1 = Inr r'"
      and v: "Value (Context r') (key_value requestIDKey) = string_value r1"
    by blast
  from v have "Value (Context r') (key_value requestIDKey) \<noteq> nil" by simp
  from WithRequestID_present [OF l this]
  have second: "WithRequestID h1 req1 r2 = Inr (req1, h1)" .
  from l v have "RequestID h1 req1 = Inr r1" by (rule RequestID_stored)
  with first second show ?thesis by blast
qed

theorem first_request_id_wins_witness:
  "load_request (test_heap True) 0 = Inr test_request
   \<and> Value (Context test_request) (key_value requestIDKey) = nil
   \<and> (\<exists>req1 h1 req2 h2. WithRequestID (test_heap True) 0 ''r1'' = Inr (req1, h1)
        \<and> WithRequestID h1 req1 ''r2'' = Inr (req2, h2)
        \<and> RequestID h2 req2 = Inr ''r1'')"
proof -
  have a: "load_request (test_heap True) 0 = Inr test_request"
    by (rule test_request_loaded)
  have b: "Value (Context test_request) (key_value requestIDKey) = nil"
    by (rule test_request_untouched)
  show ?thesis
    by (rule conjI [OF a conjI [OF b first_request_id_wins [OF a b]]])
qed

text \<open>
  C6. Defaults for absent values. On a request whose context no node stores a value
  under \<open>pathKey\<close>, \<^verbatim>\<open>Path\<close> returns \<^verbatim>\<open>""\<close>; on one with none under \<open>requestIDKey\<close>,
  \<^verbatim>\<open>RequestID\<close> returns \<^verbatim>\<open>""\<close>. Both return: neither panics.
\<close>

theorem absent_defaults:
  assumes "load_request h req = Inr r"
  shows "(\<not> has_value (Context r) (key_value pathKey) \<longrightarrow> Path h req = Inr '''')
    \<and> (\<not> has_value (Context r) (key_value requestIDKey) \<longrightarrow> RequestID h req = Inr '''')"
  using assms by (simp add: Path_def RequestID_def Value_untouched)

theorem absent_defaults_witness:
  "load_request (test_heap True) 0 = Inr test_request
   \<and> \<not> has_value (Context test_request) (key_value pathKey)
   \<and> \<not> has_value (Context test_request) (key_value requestIDKey)
   \<and> Path (test_heap True) 0 = Inr ''''
   \<and> RequestID (test_heap True) 0 = Inr ''''"
  using absent_defaults [where h = "test_heap True" and req = 0, OF test_request_loaded]
    test_request_loaded [of True]
    test_request_untouched(2) [of "key_value pathKey"]
    test_request_untouched(2) [of "key_value requestIDKey"]
  by blast

text \<open>
  C9. The empty identifier. On a request with no value under \<open>requestIDKey\<close>,
  \<^verbatim>\<open>WithRequestID(req, "")\<close> does store a value under the key, the empty string, which is
  not \<open>nil\<close>: every later \<^verbatim>\<open>WithRequestID\<close>, with any identifier, returns its argument and
  changes nothing. Yet \<^verbatim>\<open>RequestID\<close> returns \<^verbatim>\<open>""\<close> on the result, as it does on the
  request that was never tagged.
\<close>

theorem empty_request_id:
  assumes "load_request h req = Inr r"
    and "Value (Context r) (key_value requestIDKey) = nil"
  shows "\<exists>req1 h1 r1. WithRequestID h req '''' = Inr (req1, h1)
    \<and> load_request h1 req1 = Inr r1
    \<and> Value (Context r1) (key_value requestIDKey) = string_value ''''
    \<and> Value (Context r1) (key_value requestIDKey) \<noteq> nil
    \<and> (\<forall>ident. WithRequestID h1 req1 ident = Inr (req1, h1))
    \<and> RequestID h1 req1 = Inr ''''
    \<and> RequestID h req = Inr ''''"
proof -
  let ?c = "valueCtx (Context r) (key_value requestIDKey) (string_value '''')"
  from with_returns [OF assms(1)] obtain req1 h1
    where wc: "WithContext h req ?c = Inr (req1, h1)" by blast
  with WithRequestID_absent [OF assms]
  have first: "WithRequestID h req '''' = Inr (req1, h1)" by simp
  from with_new_request [OF assms(1) wc] obtain r1
    where l: "load_request h1 req1 = Inr r1"
      and v: "Value (Context r1) (key_value requestIDKey) = string_value ''''"
    by blast
  from v have stored: "Value (Context r1) (key_value requestIDKey) \<noteq> nil" by simp
  have later: "WithRequestID h1 req1 ident = Inr (req1, h1)" for ident
    by (rule WithRequestID_present [OF l stored])
  from l v have tagged: "RequestID h1 req1 = Inr ''''" by (rule RequestID_stored)
  from assms have untagged: "RequestID h req = Inr ''''"
    by (simp add: RequestID_def)
  from first l v stored later tagged untagged show ?thesis by blast
qed

theorem empty_request_id_witness:
  "load_request (test_heap True) 0 = Inr test_request
   \<and> Value (Context test_request) (key_value requestIDKey) = nil
   \<and> (\<exists>req1 h1 r1. WithRequestID (test_heap True) 0 '''' = Inr (req1, h1)
        \<and> load_request h1 req1 = Inr r1
        \<and> Value (Context r1) (key_value requestIDKey) = string_value ''''
        \<and> Value (Context r1) (key_value requestIDKey) \<noteq> nil
        \<and> (\<forall>ident. WithRequestID h1 req1 ident = Inr (req1, h1))
        \<and> RequestID h1 req1 = Inr ''''
        \<and> RequestID (test_heap True) 0 = Inr '''')"
proof -
  have a: "load_request (test_heap True) 0 = Inr test_request"
    by (rule test_request_loaded)
  have b: "Value (Context test_request) (key_value requestIDKey) = nil"
    by (rule test_request_untouched)
  show ?thesis
    by (rule conjI [OF a conjI [OF b empty_request_id [OF a b]]])
qed

text \<open>
  C8. The asymmetry of mutation. On a request \<open>req\<close> (a live pointer, with a live URL):

  \<^item> \<^verbatim>\<open>Shift\<close> returns the segment and changes the store in place, in one field only:
    the path of the URL struct that \<open>req\<close> points to becomes the rest. Every request
    struct, with its context, is as before, and so is every other URL struct.

  \<^item> \<^verbatim>\<open>WithPath\<close> and \<^verbatim>\<open>WithRequestID\<close> change no request and no URL struct that
    exists. When the key is set they return \<open>req\<close> and the store as it is. When they add a
    value they return a new pointer; the request there has the fields of \<open>req\<close>, a URL
    with the same content, and a context that is a \<^verbatim>\<open>valueCtx\<close> node around the context
    of \<open>req\<close>, which \<open>req\<close> keeps.
\<close>

theorem mutation_asymmetry:
  assumes "load_request h req = Inr r" and "load_url h (URL r) = Inr u"
  shows "(\<exists>seg rest h'. shift (URL_Path u) = Inr (seg, rest) \<and> Shift h req = Inr (seg, h')
        \<and> h' = h\<lparr>urls := (urls h)[URL r := u\<lparr>URL_Path := rest\<rparr>]\<rparr>
        \<and> requests h' = requests h
        \<and> load_url h' (URL r) = Inr (u\<lparr>URL_Path := rest\<rparr>)
        \<and> (\<forall>a. a \<noteq> URL r \<longrightarrow> load_url h' a = load_url h a))
    \<and> (\<exists>req' h'. WithPath h req = Inr (req', h')
        \<and> (\<forall>q. q < length (requests h) \<longrightarrow> load_request h' q = load_request h q)
        \<and> (\<forall>a. a < length (urls h) \<longrightarrow> load_url h' a = load_url h a)
        \<and> (if Value (Context r) (key_value pathKey) \<noteq> nil then req' = req \<and> h' = h
            else req' = length (requests h) \<and> req' \<noteq> req
              \<and> (\<exists>r2. load_request h' req' = Inr r2
                    \<and> r2\<lparr>URL := URL r\<rparr> =
                        r\<lparr>ctx := Some (valueCtx (Context r) (key_value pathKey)
                                       (string_value (URL_Path u)))\<rparr>
                    \<and> load_url h' (URL r2) = Inr u)))
    \<and> (\<exists>req' h'. WithRequestID h req ident = Inr (req', h')
        \<and> (\<forall>q. q < length (requests h) \<longrightarrow> load_request h' q = load_request h q)
        \<and> (\<forall>a. a < length (urls h) \<longrightarrow> load_url h' a = load_url h a)
        \<and> (if Value (Context r) (key_value requestIDKey) \<noteq> nil then req' = req \<and> h' = h
            else req' = length (requests h) \<and> req' \<noteq> req
              \<and> (\<exists>r2. load_request h' req' = Inr r2
                    \<and> r2\<lparr>URL := URL r\<rparr> =
                        r\<lparr>ctx := Some (valueCtx (Context r) (key_value requestIDKey)
                                       (string_value ident))\<rparr>
                    \<and> load_url h' (URL r2) = Inr u)))"
proof (intro conjI)
  from Shift_result [OF assms] obtain seg rest
    where sh: "shift (URL_Path u) = Inr (seg, rest)"
      and S: "Shift h req = Inr (seg, h\<lparr>urls := (urls h)[URL r := u\<lparr>URL_Path := rest\<rparr>]\<rparr>)"
    by blast
  let ?h' = "h\<lparr>urls := (urls h)[URL r := u\<lparr>URL_Path := rest\<rparr>]\<rparr>"
  have "requests ?h' = requests h" by simp
  moreover from Shift_load_url [OF assms(2)]
  have "load_url ?h' (URL r) = Inr (u\<lparr>URL_Path := rest\<rparr>)"
    and "\<forall>a. a \<noteq> URL r \<longrightarrow> load_url ?h' a = load_url h a"
    by simp_all
  ultimately show "\<exists>seg rest h'. shift (URL_Path u) = Inr (seg, rest) \<and> Shift h req = Inr (seg, h')
        \<and> h' = h\<lparr>urls := (urls h)[URL r := u\<lparr>URL_Path := rest\<rparr>]\<rparr>
        \<and> requests h' = requests h
        \<and> load_url h' (URL r) = Inr (u\<lparr>URL_Path := rest\<rparr>)
        \<and> (\<forall>a. a \<noteq> URL r \<longrightarrow> load_url h' a = load_url h a)"
    using sh S by blast
next
  show "\<exists>req' h'. WithPath h req = Inr (req', h')
        \<and> (\<forall>q. q < length (requests h) \<longrightarrow> load_request h' q = load_request h q)
        \<and> (\<forall>a. a < length (urls h) \<longrightarrow> load_url h' a = load_url h a)
        \<and> (if Value (Context r) (key_value pathKey) \<noteq> nil then req' = req \<and> h' = h
            else req' = length (requests h) \<and> req' \<noteq> req
              \<and> (\<exists>r2. load_request h' req' = Inr r2
                    \<and> r2\<lparr>URL := URL r\<rparr> =
                        r\<lparr>ctx := Some (valueCtx (Context r) (key_value pathKey)
                                       (string_value (URL_Path u)))\<rparr>
                    \<and> load_url h' (URL r2) = Inr u))"
  proof (cases "Value (Context r) (key_value pathKey) = nil")
    case False
    with WithPath_present [OF assms(1) False] show ?thesis by simp
  next
    case True
    let ?c = "valueCtx (Context r) (key_value pathKey) (string_value (URL_Path u))"
    from with_returns [OF assms(1)] obtain req' h'
      where wc: "WithContext h req ?c = Inr (req', h')" by blast
    with WithPath_absent [OF assms(1) True assms(2)]
    have "WithPath h req = Inr (req', h')" by simp
    with with_new_request [OF assms(1) wc] True assms(2) show ?thesis by auto
  qed
next
  show "\<exists>req' h'. WithRequestID h req ident = Inr (req', h')
        \<and> (\<forall>q. q < length (requests h) \<longrightarrow> load_request h' q = load_request h q)
        \<and> (\<forall>a. a < length (urls h) \<longrightarrow> load_url h' a = load_url h a)
        \<and> (if Value (Context r) (key_value requestIDKey) \<noteq> nil then req' = req \<and> h' = h
            else req' = length (requests h) \<and> req' \<noteq> req
              \<and> (\<exists>r2. load_request h' req' = Inr r2
                    \<and> r2\<lparr>URL := URL r\<rparr> =
                        r\<lparr>ctx := Some (valueCtx (Context r) (key_value requestIDKey)
                                       (string_value ident))\<rparr>
                    \<and> load_url h' (URL r2) = Inr u))"
  proof (cases "Value (Context r) (key_value requestIDKey) = nil")
    case False
    with WithRequestID_present [OF assms(1) False] show ?thesis by simp
  next
    case True
    let ?c = "valueCtx (Context r) (key_value requestIDKey) (string_value ident)"
    from with_returns [OF assms(1)] obtain req' h'
      where wc: "WithContext h req ?c = Inr (req', h')" by blast
    with WithRequestID_absent [OF assms(1) True]
    have "WithRequestID h req ident = Inr (req', h')" by simp
    with with_new_request [OF assms(1) wc] True assms(2) show ?thesis by auto
  qed
qed

theorem mutation_asymmetry_witness:
  "load_request (test_heap True) 0 = Inr test_request
   \<and> load_url (test_heap True) (URL test_request) = Inr test_url
   \<and> (\<exists>h'. Shift (test_heap True) 0 = Inr (''abc'', h')
        \<and> requests h' = requests (test_heap True)
        \<and> load_url h' (URL test_request) = Inr (test_url\<lparr>URL_Path := ''/xyz''\<rparr>))
   \<and> (\<exists>req' h' r2. WithPath (test_heap True) 0 = Inr (req', h')
        \<and> req' = 1 \<and> load_request h' 0 = Inr test_request
        \<and> load_url h' (URL test_request) = Inr test_url
        \<and> load_request h' req' = Inr r2
        \<and> ctx r2 = Some (valueCtx Background (key_value pathKey) (string_value ''/abc/xyz'')))"
proof -
  have sh: "shift (URL_Path test_url) = Inr (''abc'', ''/xyz'')"
    by (simp add: test_url_def shift_def slice_from_def slice_to_def IndexByte_def)
  have c: "Context test_request = Background"
    by (simp add: test_request_def Context_def)
  have len: "length (requests (test_heap True)) = 1" "length (urls (test_heap True)) = 1"
    "URL test_request = 0" "URL_Path test_url = ''/abc/xyz''"
    by (simp_all add: test_heap_def test_request_def test_url_def)
  note m = mutation_asymmetry [where h = "test_heap True" and req = 0 and r = test_request
      and u = test_url and ident = "''r1''", OF test_request_loaded test_url_loaded]
  from m sh have "\<exists>h'. Shift (test_heap True) 0 = Inr (''abc'', h')
        \<and> requests h' = requests (test_heap True)
        \<and> load_url h' (URL test_request) = Inr (test_url\<lparr>URL_Path := ''/xyz''\<rparr>)"
    by auto
  moreover from m have "\<exists>req' h' r2. WithPath (test_heap True) 0 = Inr (req', h')
        \<and> req' = 1 \<and> load_request h' 0 = Inr test_request
        \<and> load_url h' (URL test_request) = Inr test_url
        \<and> load_request h' req' = Inr r2
        \<and> ctx r2 = Some (valueCtx Background (key_value pathKey) (string_value ''/abc/xyz''))"
  proof -
    from m obtain req' h' r2 where w: "WithPath (test_heap True) 0 = Inr (req', h')"
      and old: "\<forall>q. q < length (requests (test_heap True)) \<longrightarrow>
        load_request h' q = load_request (test_heap True) q"
      and oldu: "\<forall>a. a < length (urls (test_heap True)) \<longrightarrow>
        load_url h' a = load_url (test_heap True) a"
      and new: "req' = length (requests (test_heap True))" "load_request h' req' = Inr r2"
        "r2\<lparr>URL := URL test_request\<rparr> =
          test_request\<lparr>ctx := Some (valueCtx (Context test_request) (key_value pathKey)
            (string_value (URL_Path test_url)))\<rparr>"
      by (auto simp: test_request_untouched)
    from new(3) have "ctx (r2\<lparr>URL := URL test_request\<rparr>) =
      Some (valueCtx Background (key_value pathKey) (string_value ''/abc/xyz''))"
      by (simp add: c len)
    then have "ctx r2 = Some (valueCtx Background (key_value pathKey) (string_value ''/abc/xyz''))"
      by simp
    moreover from old len have "load_request h' 0 = Inr test_request"
      by (simp add: test_request_loaded)
    moreover from oldu len have "load_url h' (URL test_request) = Inr test_url"
      using test_url_loaded [of True] by simp
    ultimately show ?thesis using w new(1,2) len by auto
  qed
  ultimately show ?thesis
    using test_request_loaded [of True] test_url_loaded [of True] by blast
qed

end
